theory Spec2Isabelle
  imports Main "HOL-Library.Word" "HOL-Library.While_Combinator"
begin

unbundle bit_operations_syntax

section \<open>The row chaser of \<^verbatim>\<open>row_chaser.h\<close>\<close>

text \<open>
  \<^verbatim>\<open>RowChaser\<close> converts a row of a Burrows-Wheeler index into an offset of the joined
  reference text by walking left with the index's \<^verbatim>\<open>mapLF\<close> until it meets a row whose
  offset is known.  All its integers are \<^verbatim>\<open>uint32_t\<close>: they are 32-bit words here, so
  that \<open>+\<close> wraps around as it does in C++.
\<close>

type_synonym u32 = "32 word"

subsection \<open>Failures\<close>

text \<open>
  The class checks its contracts with \<^verbatim>\<open>assert\<close>, \<^verbatim>\<open>assert_neq\<close> and \<^verbatim>\<open>assert_gt\<close>.
  The model is the build in which they are compiled in (so is
  \<^verbatim>\<open>ASSERT_ONLY(sideloc_.invalidate())\<close>): a failed assertion aborts the program, and
  here it is a value, one constructor for each assertion of the file.  Two more
  constructors stand for undefined behaviour of C++ that the model stops at: a shift
  of a 32-bit value by 32 or more, and a read of \<^verbatim>\<open>offs_\<close> past its end.
\<close>

datatype error =
    Assert_row_set        \<comment> \<open>\<^verbatim>\<open>assert_neq(0xffffffff, row)\<close> in \<^verbatim>\<open>setRow\<close>\<close>
  | Assert_qlen_gt0       \<comment> \<open>\<^verbatim>\<open>assert_gt(qlen, 0)\<close> in \<^verbatim>\<open>setRow\<close>\<close>
  | Assert_not_done       \<comment> \<open>\<^verbatim>\<open>assert(!done_)\<close> in \<^verbatim>\<open>advance\<close>\<close>
  | Assert_prepped        \<comment> \<open>\<^verbatim>\<open>assert(prepped_)\<close> in \<^verbatim>\<open>advance\<close>\<close>
  | Assert_newrow_neq     \<comment> \<open>\<^verbatim>\<open>assert_neq(newrow, row_)\<close> in \<^verbatim>\<open>advance\<close>\<close>
  | Assert_not_prepped    \<comment> \<open>\<^verbatim>\<open>assert(!prepped_)\<close> in \<^verbatim>\<open>prep\<close>\<close>
  | Assert_locus_invalid  \<comment> \<open>\<^verbatim>\<open>assert(!sideloc_.valid())\<close> in \<^verbatim>\<open>prep\<close>\<close>
  | Assert_off_set        \<comment> \<open>\<^verbatim>\<open>assert_neq(0xffffffff, off)\<close> in \<^verbatim>\<open>off\<close>\<close>
  | Invalid_locus         \<comment> \<open>\<^verbatim>\<open>mapLF\<close> handed a locus that is not valid\<close>
  | Undefined_shift       \<comment> \<open>\<^verbatim>\<open>row_ >> offRate_\<close> with \<^verbatim>\<open>offRate_ >= 32\<close>\<close>
  | Out_of_bounds         \<comment> \<open>\<^verbatim>\<open>offs_[i]\<close> with \<^verbatim>\<open>i\<close> past the end of the array\<close>

subsection \<open>The index\<close>

text \<open>
  Modelled from the spec: the class \<^verbatim>\<open>Ebwt\<close> and the class \<^verbatim>\<open>SideLocus\<close> of \<^verbatim>\<open>ebwt.h\<close>,
  which the chaser only calls.  The index is a parameter of everything below: its
  fields \<^verbatim>\<open>_eh._offMask\<close>, \<^verbatim>\<open>_eh._offRate\<close>, \<^verbatim>\<open>_zOff\<close> and \<^verbatim>\<open>_offs\<close>, and its three
  services as functions. A locus is a value of an opaque type \<open>'l\<close>;
  \<open>initFromRow\<close> is \<^verbatim>\<open>SideLocus::initFromRow(row, eh, ebwtPtr)\<close> (a pure function of the
  row and the index), \<open>mapLF\<close> is \<^verbatim>\<open>Ebwt::mapLF\<close> (the backward step from a locus) and
  \<open>joinedToTextOff qlen off\<close> gives the three values \<^verbatim>\<open>Ebwt::joinedToTextOff\<close> writes
  to its reference arguments \<^verbatim>\<open>tidx\<close>, \<^verbatim>\<open>textoff\<close> and \<^verbatim>\<open>tlen\<close>.
\<close>

record 'l ebwt =
  offMask :: u32
  offRate :: u32
  zOff :: u32
  offs :: "u32 list"
  initFromRow :: "u32 \<Rightarrow> 'l"
  mapLF :: "'l \<Rightarrow> u32"
  joinedToTextOff :: "u32 \<Rightarrow> u32 \<Rightarrow> u32 \<times> u32 \<times> u32"

subsection \<open>The chaser's state\<close>

text \<open>
  What the chaser does to the world outside itself: a prefetch hint for a locus
  (\<^verbatim>\<open>sideloc_.prefetch()\<close>) and a backward step that reads the index at a locus
  (\<^verbatim>\<open>ebwt_.mapLF(sideloc_)\<close>).
\<close>

datatype 'l event = Prefetch 'l | MapLF 'l

text \<open>
  The fields of the class.  A name cannot end in an underscore here, so the field
  \<^verbatim>\<open>row_\<close> is \<open>row_f\<close>, and so on for each field; the method \<^verbatim>\<open>done()\<close> is \<open>done_p\<close>.
  \<open>sideloc_f\<close> is \<open>None\<close> when the locus is not valid.  \<open>eh_\<close> and \<open>ebwtPtr_\<close> are only handed to \<^verbatim>\<open>initFromRow\<close> and are part of
  \<open>ebwt_f\<close> here.  \<open>events\<close> is not a field of the class: it is the log of the calls
  made to the memory system and the index so far, oldest first.
\<close>

record 'l chaser =
  prepped_f :: bool
  ebwt_f :: "'l ebwt"
  qlen_f :: u32
  offMask_f :: u32
  offRate_f :: u32
  zOff_f :: u32
  offs_f :: "u32 list"
  row_f :: u32
  jumps_f :: u32
  sideloc_f :: "'l option"
  done_f :: bool
  off_f :: u32
  tlen_f :: u32
  events :: "'l event list"

text \<open>The constructor \<^verbatim>\<open>RowChaser(const EbwtT& ebwt)\<close>.\<close>

definition RowChaser :: "'l ebwt \<Rightarrow> 'l chaser" where
  "RowChaser ebwt =
     \<lparr> prepped_f = False,
       ebwt_f = ebwt,
       qlen_f = 0,
       offMask_f = offMask ebwt,
       offRate_f = offRate ebwt,
       zOff_f = zOff ebwt,
       offs_f = offs ebwt,
       row_f = 0xffffffff,
       jumps_f = 0,
       sideloc_f = None,
       done_f = False,
       off_f = 0xffffffff,
       tlen_f = 0,
       events = [] \<rparr>"

subsection \<open>The operations\<close>

text \<open>
  The test \<^verbatim>\<open>(row_ & offMask_) == row_\<close> of a marked row, and the read
  \<^verbatim>\<open>offs_[row_ >> offRate_]\<close> of its stored offset.
\<close>

definition marked :: "'l chaser \<Rightarrow> u32 \<Rightarrow> bool" where
  "marked rc row = (row AND offMask_f rc = row)"

definition read_offs :: "'l chaser \<Rightarrow> u32 \<Rightarrow> error + u32" where
  "read_offs rc row =
     (if 32 \<le> unat (offRate_f rc) then Inl Undefined_shift
      else if unat (drop_bit (unat (offRate_f rc)) row) < length (offs_f rc)
      then Inr (offs_f rc ! unat (drop_bit (unat (offRate_f rc)) row))
      else Inl Out_of_bounds)"

text \<open>\<^verbatim>\<open>prep\<close>: issue the prefetch for the current row's locus, unless the chase is done.\<close>

definition prep :: "'l chaser \<Rightarrow> error + 'l chaser" where
  "prep rc =
     (if \<not> done_f rc then
        (if prepped_f rc then Inl Assert_not_prepped
         else if sideloc_f rc \<noteq> None then Inl Assert_locus_invalid
         else Inr (rc\<lparr> sideloc_f := Some (initFromRow (ebwt_f rc) (row_f rc)),
                       events := events rc @ [Prefetch (initFromRow (ebwt_f rc) (row_f rc))],
                       prepped_f := True \<rparr>))
      else Inr (rc\<lparr> prepped_f := True \<rparr>))"

text \<open>\<^verbatim>\<open>setRow\<close>: start the chase of a row.\<close>

definition setRow :: "u32 \<Rightarrow> u32 \<Rightarrow> 'l chaser \<Rightarrow> error + 'l chaser" where
  "setRow row qlen rc =
     (if row = 0xffffffff then Inl Assert_row_set
      else if \<not> 0 < qlen then Inl Assert_qlen_gt0
      else if row = zOff_f rc then
        Inr (rc\<lparr> row_f := row, qlen_f := qlen, sideloc_f := None, off_f := 0, done_f := True \<rparr>)
      else if marked rc row then
        (case read_offs rc row of
           Inl err \<Rightarrow> Inl err
         | Inr v \<Rightarrow>
             Inr (rc\<lparr> row_f := row, qlen_f := qlen, sideloc_f := None, off_f := v,
                       done_f := True \<rparr>))
      else
        prep (rc\<lparr> row_f := row, qlen_f := qlen, sideloc_f := None, done_f := False,
                   jumps_f := 0, off_f := 0xffffffff, prepped_f := False \<rparr>))"

text \<open>\<^verbatim>\<open>done\<close> and \<^verbatim>\<open>flatOff\<close> read a field.\<close>

definition done_p :: "'l chaser \<Rightarrow> bool" where
  "done_p rc = done_f rc"

definition flatOff :: "'l chaser \<Rightarrow> u32" where
  "flatOff rc = off_f rc"

text \<open>
  \<^verbatim>\<open>advance\<close>: one step to the left.  A locus that is not valid cannot be stepped
  from: what \<^verbatim>\<open>Ebwt::mapLF\<close> does with one is not in this file, and the model stops
  there with \<open>Invalid_locus\<close>.
\<close>

definition advance :: "'l chaser \<Rightarrow> error + 'l chaser" where
  "advance rc =
     (if done_f rc then Inl Assert_not_done
      else if \<not> prepped_f rc then Inl Assert_prepped
      else case sideloc_f rc of
        None \<Rightarrow> Inl Invalid_locus
      | Some l \<Rightarrow>
          let newrow = mapLF (ebwt_f rc) l;
              jumps = jumps_f rc + 1
          in if newrow = row_f rc then Inl Assert_newrow_neq
             else if newrow = zOff_f rc then
               prep (rc\<lparr> prepped_f := False, sideloc_f := None,
                          events := events rc @ [MapLF l], jumps_f := jumps,
                          row_f := newrow, off_f := jumps, done_f := True \<rparr>)
             else if marked rc newrow then
               (case read_offs rc newrow of
                  Inl err \<Rightarrow> Inl err
                | Inr v \<Rightarrow>
                    prep (rc\<lparr> prepped_f := False, sideloc_f := None,
                               events := events rc @ [MapLF l], jumps_f := jumps,
                               row_f := newrow, off_f := v + jumps, done_f := True \<rparr>))
             else
               prep (rc\<lparr> prepped_f := False, sideloc_f := None,
                          events := events rc @ [MapLF l], jumps_f := jumps,
                          row_f := newrow \<rparr>))"

text \<open>
  \<^verbatim>\<open>off\<close>: translate the flat offset; the pair \<^verbatim>\<open>(tidx, textoff)\<close> is returned and
  \<^verbatim>\<open>tlen_\<close> is overwritten.
\<close>

definition off :: "'l chaser \<Rightarrow> error + ((u32 \<times> u32) \<times> 'l chaser)" where
  "off rc =
     (if flatOff rc = 0xffffffff then Inl Assert_off_set
      else case joinedToTextOff (ebwt_f rc) (qlen_f rc) (flatOff rc) of
        (tidx, textoff, tlen) \<Rightarrow> Inr ((tidx, textoff), rc\<lparr> tlen_f := tlen \<rparr>))"

definition tlen :: "'l chaser \<Rightarrow> u32" where
  "tlen rc = tlen_f rc"

text \<open>
  The loop \<^verbatim>\<open>while(!rc.done()) { rc.advance(); }\<close> of the two wrappers.  Nothing in the
  class bounds it, so it is a partial function: \<open>None\<close> is the loop that never ends,
  \<open>Some (Inl err)\<close> the one an assertion stops.
\<close>

partial_function (option) chase_loop :: "'l chaser \<Rightarrow> (error + 'l chaser) option" where
  "chase_loop rc =
     (if \<not> done_p rc then
        (case advance rc of
           Inl err \<Rightarrow> Some (Inl err)
         | Inr rc' \<Rightarrow> chase_loop rc')
      else Some (Inr rc))"

text \<open>The static wrappers \<^verbatim>\<open>toFlatRefOff\<close> and \<^verbatim>\<open>toRefOff\<close>.\<close>

definition toFlatRefOff :: "'l ebwt \<Rightarrow> u32 \<Rightarrow> u32 \<Rightarrow> (error + u32) option" where
  "toFlatRefOff ebwt qlen row =
     (case setRow row qlen (RowChaser ebwt) of
        Inl err \<Rightarrow> Some (Inl err)
      | Inr rc \<Rightarrow>
          (case chase_loop rc of
             None \<Rightarrow> None
           | Some (Inl err) \<Rightarrow> Some (Inl err)
           | Some (Inr rc') \<Rightarrow> Some (Inr (flatOff rc'))))"

definition toRefOff :: "'l ebwt \<Rightarrow> u32 \<Rightarrow> u32 \<Rightarrow> (error + u32 \<times> u32) option" where
  "toRefOff ebwt qlen row =
     (case setRow row qlen (RowChaser ebwt) of
        Inl err \<Rightarrow> Some (Inl err)
      | Inr rc \<Rightarrow>
          (case chase_loop rc of
             None \<Rightarrow> None
           | Some (Inl err) \<Rightarrow> Some (Inl err)
           | Some (Inr rc') \<Rightarrow>
               (case off rc' of
                  Inl err \<Rightarrow> Some (Inl err)
                | Inr (p, rc'') \<Rightarrow> Some (Inr p))))"

subsection \<open>Driving a chaser from outside\<close>

text \<open>
  A caller that interleaves several chases calls \<^verbatim>\<open>advance\<close> itself.  \<open>advance_n n\<close> is
  \<open>n\<close> such calls in a row, stopping at the first one that fails.
\<close>

fun advance_n :: "nat \<Rightarrow> 'l chaser \<Rightarrow> error + 'l chaser" where
  "advance_n 0 rc = Inr rc"
| "advance_n (Suc n) rc =
     (case advance rc of
        Inl err \<Rightarrow> Inl err
      | Inr rc' \<Rightarrow> advance_n n rc')"

text \<open>
  The backward step as a function of the row (the locus is built from the row, the
  step is taken from the locus), and the row reached after \<open>n\<close> steps.
\<close>

definition LF :: "'l ebwt \<Rightarrow> u32 \<Rightarrow> u32" where
  "LF ebwt r = mapLF ebwt (initFromRow ebwt r)"

fun walk :: "'l ebwt \<Rightarrow> nat \<Rightarrow> u32 \<Rightarrow> u32" where
  "walk ebwt 0 r = r"
| "walk ebwt (Suc n) r = walk ebwt n (LF ebwt r)"

text \<open>
  A row whose offset the index knows: the row \<^verbatim>\<open>zOff_\<close>, or a marked row.  A marked row
  has a sample when the read \<^verbatim>\<open>offs_[row >> offRate_]\<close> is defined.
\<close>

definition anchor :: "'l chaser \<Rightarrow> u32 \<Rightarrow> bool" where
  "anchor rc r = (r = zOff_f rc \<or> marked rc r)"

definition has_sample :: "'l chaser \<Rightarrow> u32 \<Rightarrow> bool" where
  "has_sample rc r =
     (unat (offRate_f rc) < 32 \<and> unat (drop_bit (unat (offRate_f rc)) r) < length (offs_f rc))"

definition sample :: "'l chaser \<Rightarrow> u32 \<Rightarrow> u32" where
  "sample rc r = offs_f rc ! unat (drop_bit (unat (offRate_f rc)) r)"

text \<open>
  The chaser waits for a step: it is not done, \<^verbatim>\<open>prepped_\<close> is set, and the locus it holds
  is the one of its current row.
\<close>

definition awaiting :: "'l chaser \<Rightarrow> bool" where
  "awaiting rc =
     (\<not> done_f rc \<and> prepped_f rc \<and>
      sideloc_f rc = Some (initFromRow (ebwt_f rc) (row_f rc)))"

text \<open>
  A whole chase from outside: a fresh chaser, \<^verbatim>\<open>setRow\<close>, then \<open>n\<close> calls of \<^verbatim>\<open>advance\<close>;
  and what \<^verbatim>\<open>done()\<close> says of the outcome.
\<close>

definition chase_n :: "nat \<Rightarrow> 'l ebwt \<Rightarrow> u32 \<Rightarrow> u32 \<Rightarrow> error + 'l chaser" where
  "chase_n n ebwt qlen row =
     (case setRow row qlen (RowChaser ebwt) of
        Inl err \<Rightarrow> Inl err
      | Inr rc \<Rightarrow> advance_n n rc)"

definition resolved :: "error + 'l chaser \<Rightarrow> bool" where
  "resolved r = (case r of Inl err \<Rightarrow> False | Inr rc \<Rightarrow> done_p rc)"

definition awaiting_step :: "error + 'l chaser \<Rightarrow> bool" where
  "awaiting_step r = (case r of Inl err \<Rightarrow> False | Inr rc \<Rightarrow> \<not> done_p rc)"

text \<open>
  Any sequence of calls of the public methods that change the chaser.  (\<^verbatim>\<open>done\<close>,
  \<^verbatim>\<open>flatOff\<close> and \<^verbatim>\<open>tlen\<close> only read it.)
\<close>

datatype call = SetRow u32 u32 | Advance | Prep | Off

fun do_call :: "call \<Rightarrow> 'l chaser \<Rightarrow> error + 'l chaser" where
  "do_call (SetRow row qlen) rc = setRow row qlen rc"
| "do_call Advance rc = advance rc"
| "do_call Prep rc = prep rc"
| "do_call Off rc = (case off rc of Inl err \<Rightarrow> Inl err | Inr (p, rc') \<Rightarrow> Inr rc')"

fun run :: "call list \<Rightarrow> 'l chaser \<Rightarrow> error + 'l chaser" where
  "run [] rc = Inr rc"
| "run (c # cs) rc =
     (case do_call c rc of
        Inl err \<Rightarrow> Inl err
      | Inr rc' \<Rightarrow> run cs rc')"

text \<open>
  What every sequence of calls keeps true of a chaser: while the chase is not done the
  offset is the reserved value \<^verbatim>\<open>0xffffffff\<close>, and the locus is valid exactly when the
  chase is not done and \<^verbatim>\<open>prepped_\<close> is set, and then it is the locus of the current row.
\<close>

definition chaser_inv :: "'l chaser \<Rightarrow> bool" where
  "chaser_inv rc =
     ((done_f rc \<or> off_f rc = 0xffffffff) \<and>
      sideloc_f rc =
        (if \<not> done_f rc \<and> prepped_f rc then Some (initFromRow (ebwt_f rc) (row_f rc))
         else None))"

subsection \<open>The prefetch protocol\<close>

text \<open>
  The events of a chase that starts at row \<open>r\<close> and has taken \<open>n\<close> steps: for each
  step the prefetch of the row's locus and then the backward step from that locus;
  and, when the chase is not done, the prefetch for the row it has reached.
\<close>

fun chase_events :: "'l ebwt \<Rightarrow> u32 \<Rightarrow> nat \<Rightarrow> 'l event list" where
  "chase_events ebwt r 0 = []"
| "chase_events ebwt r (Suc n) =
     Prefetch (initFromRow ebwt r) # MapLF (initFromRow ebwt r) #
     chase_events ebwt (LF ebwt r) n"

definition trace_of :: "'l ebwt \<Rightarrow> u32 \<Rightarrow> nat \<Rightarrow> bool \<Rightarrow> 'l event list" where
  "trace_of ebwt r n d =
     chase_events ebwt r n @
     (if d then [] else [Prefetch (initFromRow ebwt (walk ebwt n r))])"

text \<open>
  The discipline of section 4.2 of the specification, read off a log of events.  The
  first argument is the prefetch that is outstanding, if any.  A prefetch may only be
  issued when none is outstanding; a step may only be taken from the locus whose
  prefetch is outstanding, and consumes it.
\<close>

fun protocol_ok :: "'l option \<Rightarrow> 'l event list \<Rightarrow> bool" where
  "protocol_ok out [] = True"
| "protocol_ok out (Prefetch l # es) = (out = None \<and> protocol_ok (Some l) es)"
| "protocol_ok out (MapLF l # es) = (out = Some l \<and> protocol_ok None es)"

subsection \<open>The wrappers as the specification words them\<close>

text \<open>
  Section 4.1 of the specification: the wrappers \<^emph>\<open>construct a resolver, drive it to
  completion synchronously, and return the result\<close>.  Driving to completion is calling
  \<^verbatim>\<open>step()\<close> again and again until the resolver is resolved; a step that fails ends it.
  It is written here with the library's \<open>while_option\<close>, not with the loop of the code.
\<close>

definition step_until_resolved :: "'l chaser \<Rightarrow> (error + 'l chaser) option" where
  "step_until_resolved rc =
     while_option awaiting_step
       (\<lambda>s. case s of Inl err \<Rightarrow> Inl err | Inr c \<Rightarrow> advance c) (Inr rc)"

definition resolveRowToFlatOffset :: "'l ebwt \<Rightarrow> u32 \<Rightarrow> u32 \<Rightarrow> (error + u32) option" where
  "resolveRowToFlatOffset index queryLength row =
     (case setRow row queryLength (RowChaser index) of
        Inl err \<Rightarrow> Some (Inl err)
      | Inr rc \<Rightarrow> map_option (map_sum id flatOff) (step_until_resolved rc))"

definition resolveRowToTextPosition ::
  "'l ebwt \<Rightarrow> u32 \<Rightarrow> u32 \<Rightarrow> (error + u32 \<times> u32) option" where
  "resolveRowToTextPosition index queryLength row =
     (case setRow row queryLength (RowChaser index) of
        Inl err \<Rightarrow> Some (Inl err)
      | Inr rc \<Rightarrow>
          map_option
            (\<lambda>s. case s of
                   Inl err \<Rightarrow> Inl err
                 | Inr c \<Rightarrow> map_sum id fst (off c))
            (step_until_resolved rc))"

subsection \<open>An index to compute with\<close>

text \<open>
  The index of the text \<^verbatim>\<open>AAAACAC\<close> with a sample for every second row
  (\<^verbatim>\<open>offRate = 1\<close>).  Its suffix array is \<^verbatim>\<open>7 0 1 2 5 3 6 4\<close>, so the row of offset 0 is
  row 1, the samples are \<^verbatim>\<open>7 1 5 6\<close>, and the backward step sends rows 0 to 7 to rows
  \<^verbatim>\<open>6 0 1 2 7 3 4 5\<close>.  A locus is the row itself.  The text is one sequence of length 7;
  a query that runs past its end has no sequence.
\<close>

definition idx_AAAACAC :: "u32 ebwt" where
  "idx_AAAACAC =
     \<lparr> offMask = 0xfffffffe,
       offRate = 1,
       zOff = 1,
       offs = [7, 1, 5, 6],
       initFromRow = (\<lambda>row. row),
       mapLF = (\<lambda>l. if unat l < 8 then [6, 0, 1, 2, 7, 3, 4, 5] ! unat l else 0),
       joinedToTextOff =
         (\<lambda>qlen off. if unat off + unat qlen \<le> 7 then (0, off, 7)
                      else (0xffffffff, 0, 0xffffffff)) \<rparr>"

text \<open>
  A damaged index with the same parameters: the backward step sends row 3 to row 5
  and row 5 to row 3, and neither is marked or the row of offset 0.
\<close>

definition idx_cycle :: "u32 ebwt" where
  "idx_cycle =
     \<lparr> offMask = 0xfffffffe,
       offRate = 1,
       zOff = 1,
       offs = [7, 1, 5, 6],
       initFromRow = (\<lambda>row. row),
       mapLF = (\<lambda>l. if l = 3 then 5 else if l = 5 then 3 else 0),
       joinedToTextOff = (\<lambda>qlen off. (0, off, 7)) \<rparr>"

text \<open>
  The index of the example in section 8 of the specification: \<^verbatim>\<open>offRate = 2\<close>, the row
  of offset 0 is row 0, the backward step sends row 7 to row 5 and row 5 to row 2, rows
  7 and 5 are not marked, row 2 is marked and its sample is \<^verbatim>\<open>offs[0] = 10\<close>.  The mask
  is one under which row 2 is marked and rows 5 and 7 are not.
\<close>

definition idx_example :: "u32 ebwt" where
  "idx_example =
     \<lparr> offMask = 0xfffffffa,
       offRate = 2,
       zOff = 0,
       offs = [10],
       initFromRow = (\<lambda>row. row),
       mapLF = (\<lambda>l. if l = 7 then 5 else if l = 5 then 2 else 0),
       joinedToTextOff = (\<lambda>qlen off. (0, off, 16)) \<rparr>"

section \<open>Starting a chase\<close>

lemmas chaser_defs = setRow_def prep_def advance_def read_offs_def has_sample_def sample_def
  done_p_def flatOff_def LF_def

lemmas idx_defs = RowChaser_def idx_AAAACAC_def idx_cycle_def idx_example_def marked_def
  anchor_def has_sample_def sample_def chase_n_def resolved_def awaiting_step_def

text \<open>
  Claim C1.  For every row other than the reserved value \<^verbatim>\<open>0xffffffff\<close> (whose sample, if
  the row is marked and is not the row \<^verbatim>\<open>zOff_\<close>, lies inside \<^verbatim>\<open>offs_\<close>) and every
  \<^verbatim>\<open>qlen > 0\<close>, \<^verbatim>\<open>setRow\<close> succeeds and
  \<^item> resolves at once with flat offset 0 when the row is \<^verbatim>\<open>zOff_\<close>;
  \<^item> else resolves at once with flat offset \<^verbatim>\<open>offs_[row >> offRate_]\<close> when the row is
    marked;
  \<^item> else leaves the chase unresolved with \<^verbatim>\<open>jumps_ = 0\<close>, and has issued exactly one
    prefetch, for the locus of the row.
  The test for \<^verbatim>\<open>zOff_\<close> comes first, as in the code: a marked row that is also the row
  \<^verbatim>\<open>zOff_\<close> gets offset 0.
\<close>

theorem setRow_resolves:
  assumes "row \<noteq> 0xffffffff" and "0 < qlen"
    and "row \<noteq> zOff_f rc \<and> marked rc row \<longrightarrow> has_sample rc row"
  shows "case setRow row qlen rc of
           Inl err \<Rightarrow> False
         | Inr rc' \<Rightarrow>
             row_f rc' = row \<and> qlen_f rc' = qlen \<and>
             (if row = zOff_f rc then
                done_p rc' \<and> flatOff rc' = 0 \<and> events rc' = events rc
              else if marked rc row then
                done_p rc' \<and> flatOff rc' = sample rc row \<and> events rc' = events rc
              else
                \<not> done_p rc' \<and> jumps_f rc' = 0 \<and> prepped_f rc' \<and>
                sideloc_f rc' = Some (initFromRow (ebwt_f rc) row) \<and>
                events rc' = events rc @ [Prefetch (initFromRow (ebwt_f rc) row)])"
  using assms by (auto simp: chaser_defs)

text \<open>
  On the index of \<^verbatim>\<open>AAAACAC\<close>: row 7 is neither marked nor the row of offset 0, row 1 is
  the row of offset 0, and row 4 is marked with sample \<^verbatim>\<open>offs[2] = 5\<close>.
\<close>

theorem setRow_resolves_witness:
  "(case setRow 7 3 (RowChaser idx_AAAACAC) of
      Inl err \<Rightarrow> False
    | Inr rc' \<Rightarrow> row_f rc' = 7 \<and> qlen_f rc' = 3 \<and> \<not> done_p rc' \<and> jumps_f rc' = 0 \<and>
        prepped_f rc' \<and> sideloc_f rc' = Some 7 \<and> events rc' = [Prefetch 7]) \<and>
   (case setRow 1 3 (RowChaser idx_AAAACAC) of
      Inl err \<Rightarrow> False
    | Inr rc' \<Rightarrow> row_f rc' = 1 \<and> qlen_f rc' = 3 \<and> done_p rc' \<and> flatOff rc' = 0 \<and>
        events rc' = []) \<and>
   (case setRow 4 3 (RowChaser idx_AAAACAC) of
      Inl err \<Rightarrow> False
    | Inr rc' \<Rightarrow> row_f rc' = 4 \<and> qlen_f rc' = 3 \<and> done_p rc' \<and> flatOff rc' = 5 \<and>
        events rc' = [])"
proof -
  let ?rc = "RowChaser idx_AAAACAC"
  have m: "\<not> marked ?rc 7" "marked ?rc 4" "has_sample ?rc 4" "zOff_f ?rc = 1"
    "sample ?rc 4 = 5" "events ?rc = []" "initFromRow (ebwt_f ?rc) 7 = 7"
    by (simp_all add: RowChaser_def idx_AAAACAC_def marked_def has_sample_def sample_def)
  have a: "(7::u32) \<noteq> 0xffffffff" "(1::u32) \<noteq> 0xffffffff" "(4::u32) \<noteq> 0xffffffff"
    "(0::u32) < 3"
    by simp_all
  show ?thesis
    using setRow_resolves [of 7 3 ?rc] setRow_resolves [of 1 3 ?rc]
      setRow_resolves [of 4 3 ?rc] a m
    by (simp split: sum.splits)
qed

section \<open>One step\<close>

text \<open>No operation touches the fields that are copied from the index.\<close>

lemma setRow_frame:
  assumes "setRow row qlen rc = Inr rc'"
  shows "ebwt_f rc' = ebwt_f rc" "offMask_f rc' = offMask_f rc" "offRate_f rc' = offRate_f rc"
    "zOff_f rc' = zOff_f rc" "offs_f rc' = offs_f rc"
  using assms
  by (auto simp: setRow_def prep_def read_offs_def split: if_splits sum.splits)

lemma setRow_frame_funs:
  assumes "setRow row qlen rc = Inr rc'"
  shows "marked rc' = marked rc" "anchor rc' = anchor rc" "has_sample rc' = has_sample rc"
    "sample rc' = sample rc"
  using setRow_frame [OF assms]
  by (auto simp: marked_def anchor_def has_sample_def sample_def fun_eq_iff)

lemma advance_frame:
  assumes "advance rc = Inr rc'"
  shows "ebwt_f rc' = ebwt_f rc" "offMask_f rc' = offMask_f rc" "offRate_f rc' = offRate_f rc"
    "zOff_f rc' = zOff_f rc" "offs_f rc' = offs_f rc" "qlen_f rc' = qlen_f rc"
  using assms
  by (auto simp: advance_def prep_def read_offs_def Let_def split: if_splits option.splits sum.splits)

lemma advance_frame_funs:
  assumes "advance rc = Inr rc'"
  shows "marked rc' = marked rc" "anchor rc' = anchor rc" "has_sample rc' = has_sample rc"
    "sample rc' = sample rc"
  using advance_frame [OF assms]
  by (auto simp: marked_def anchor_def has_sample_def sample_def fun_eq_iff)

lemma advance_done_fails: "done_f rc \<Longrightarrow> advance rc = Inl Assert_not_done"
  by (simp add: advance_def)

lemma advance_n_done:
  assumes "done_f rc" and "advance_n n rc = Inr rc'"
  shows "n = 0 \<and> rc' = rc"
  using assms by (cases n) (auto simp: advance_done_fails)

text \<open>
  Claim C2.  Take a chaser that waits for a step, with the prefetch for the locus of its
  row issued, and an index whose backward step does not return the row it was given
  (section 6 of the specification) and has the sample of the new row if that row is
  marked.  Then \<^verbatim>\<open>advance\<close> succeeds, adds one to \<^verbatim>\<open>jumps_\<close> (modulo \<open>2 ^ 32\<close>) and makes the
  result of the backward step the current row.  If the new row is \<^verbatim>\<open>zOff_\<close> the chase
  is resolved with offset \<^verbatim>\<open>jumps_\<close>; else if it is marked the chase is resolved with
  offset \<^verbatim>\<open>offs_[row_ >> offRate_] + jumps_\<close>; else the chaser issues the prefetch for the
  new locus and waits for a step again.
\<close>

theorem advance_step:
  assumes "awaiting rc"
    and "LF (ebwt_f rc) (row_f rc) \<noteq> row_f rc"
    and "LF (ebwt_f rc) (row_f rc) \<noteq> zOff_f rc \<and> marked rc (LF (ebwt_f rc) (row_f rc))
         \<longrightarrow> has_sample rc (LF (ebwt_f rc) (row_f rc))"
  shows "case advance rc of
           Inl err \<Rightarrow> False
         | Inr rc' \<Rightarrow>
             jumps_f rc' = jumps_f rc + 1 \<and>
             row_f rc' = LF (ebwt_f rc) (row_f rc) \<and>
             (if row_f rc' = zOff_f rc then
                done_p rc' \<and> flatOff rc' = jumps_f rc' \<and>
                events rc' = events rc @ [MapLF (initFromRow (ebwt_f rc) (row_f rc))]
              else if marked rc (row_f rc') then
                done_p rc' \<and> flatOff rc' = sample rc (row_f rc') + jumps_f rc' \<and>
                events rc' = events rc @ [MapLF (initFromRow (ebwt_f rc) (row_f rc))]
              else
                awaiting rc' \<and>
                events rc' = events rc @
                  [MapLF (initFromRow (ebwt_f rc) (row_f rc)),
                   Prefetch (initFromRow (ebwt_f rc) (row_f rc'))])"
  using assms by (auto simp: chaser_defs awaiting_def Let_def)

text \<open>
  On the index of \<^verbatim>\<open>AAAACAC\<close>: from row 7 the step goes to row 5, which is not marked;
  from row 3, after two steps, it goes to row 2, which is marked with sample 1.
\<close>

theorem advance_step_witness:
  "(case advance ((RowChaser idx_AAAACAC)
             \<lparr> row_f := 7, qlen_f := 3, prepped_f := True, sideloc_f := Some 7,
               events := [Prefetch 7] \<rparr>) of
      Inl err \<Rightarrow> False
    | Inr rc' \<Rightarrow> jumps_f rc' = 1 \<and> row_f rc' = 5 \<and> awaiting rc' \<and>
        events rc' = [Prefetch 7, MapLF 7, Prefetch 5]) \<and>
   (case advance ((RowChaser idx_AAAACAC)
             \<lparr> row_f := 3, qlen_f := 3, jumps_f := 2, prepped_f := True,
               sideloc_f := Some 3, events := [Prefetch 3] \<rparr>) of
      Inl err \<Rightarrow> False
    | Inr rc' \<Rightarrow> jumps_f rc' = 3 \<and> row_f rc' = 2 \<and> done_p rc' \<and> flatOff rc' = 4 \<and>
        events rc' = [Prefetch 3, MapLF 3])"
proof -
  let ?a = "(RowChaser idx_AAAACAC)
             \<lparr> row_f := 7, qlen_f := 3, prepped_f := True, sideloc_f := Some 7,
               events := [Prefetch 7] \<rparr>"
  let ?b = "(RowChaser idx_AAAACAC)
             \<lparr> row_f := 3, qlen_f := 3, jumps_f := 2, prepped_f := True,
               sideloc_f := Some 3, events := [Prefetch 3] \<rparr>"
  have a: "awaiting ?a"
    and a1: "LF (ebwt_f ?a) (row_f ?a) \<noteq> row_f ?a"
    and a2: "LF (ebwt_f ?a) (row_f ?a) \<noteq> zOff_f ?a \<and> marked ?a (LF (ebwt_f ?a) (row_f ?a))
         \<longrightarrow> has_sample ?a (LF (ebwt_f ?a) (row_f ?a))"
    by (simp_all add: awaiting_def RowChaser_def idx_AAAACAC_def LF_def marked_def)
  have b: "awaiting ?b"
    and b1: "LF (ebwt_f ?b) (row_f ?b) \<noteq> row_f ?b"
    and b2: "LF (ebwt_f ?b) (row_f ?b) \<noteq> zOff_f ?b \<and> marked ?b (LF (ebwt_f ?b) (row_f ?b))
         \<longrightarrow> has_sample ?b (LF (ebwt_f ?b) (row_f ?b))"
    by (simp_all add: awaiting_def RowChaser_def idx_AAAACAC_def LF_def marked_def
        has_sample_def)
  have v: "ebwt_f ?a = idx_AAAACAC" "row_f ?a = 7" "jumps_f ?a = 0" "zOff_f ?a = 1"
    "events ?a = [Prefetch 7]" "\<not> marked ?a 5"
    "ebwt_f ?b = idx_AAAACAC" "row_f ?b = 3" "jumps_f ?b = 2" "zOff_f ?b = 1"
    "events ?b = [Prefetch 3]" "marked ?b 2" "sample ?b 2 = 1"
    "LF idx_AAAACAC 7 = 5" "LF idx_AAAACAC 3 = 2" "initFromRow idx_AAAACAC = (\<lambda>r. r)"
    by (simp_all add: RowChaser_def idx_AAAACAC_def LF_def marked_def sample_def)
  show ?thesis
    using advance_step [OF a a1 a2] advance_step [OF b b1 b2]
    by (auto simp: v split: sum.splits)
qed

section \<open>A whole chase\<close>

lemma walk_fixed: "LF e r = r \<Longrightarrow> walk e n r = r"
  by (induction n) auto

lemma walk_Suc_right: "walk e (Suc n) r = LF e (walk e n r)"
  by (induction n arbitrary: r) auto

lemma advance_awaiting:
  assumes "awaiting rc"
    and "LF (ebwt_f rc) (row_f rc) \<noteq> row_f rc"
    and "\<not> anchor rc (LF (ebwt_f rc) (row_f rc))"
  shows "\<exists>rc'. advance rc = Inr rc' \<and> awaiting rc' \<and> row_f rc' = LF (ebwt_f rc) (row_f rc) \<and>
           jumps_f rc' = jumps_f rc + 1 \<and> off_f rc' = off_f rc"
  using assms by (auto simp: chaser_defs awaiting_def anchor_def Let_def)

lemma advance_to_anchor:
  assumes "awaiting rc"
    and "LF (ebwt_f rc) (row_f rc) \<noteq> row_f rc"
    and "anchor rc (LF (ebwt_f rc) (row_f rc))"
    and "LF (ebwt_f rc) (row_f rc) \<noteq> zOff_f rc \<longrightarrow> has_sample rc (LF (ebwt_f rc) (row_f rc))"
  shows "\<exists>rc'. advance rc = Inr rc' \<and> done_f rc' \<and> row_f rc' = LF (ebwt_f rc) (row_f rc) \<and>
           jumps_f rc' = jumps_f rc + 1 \<and>
           off_f rc' = (if row_f rc' = zOff_f rc then 0 else sample rc (row_f rc')) + (jumps_f rc + 1)"
  using assms by (auto simp: chaser_defs awaiting_def anchor_def Let_def)

lemma chase_reaches_anchor:
  assumes "awaiting rc"
    and "\<forall>k\<le>m. \<not> anchor rc (walk (ebwt_f rc) k (row_f rc))"
    and "anchor rc (walk (ebwt_f rc) (Suc m) (row_f rc))"
    and "walk (ebwt_f rc) (Suc m) (row_f rc) \<noteq> zOff_f rc
         \<longrightarrow> has_sample rc (walk (ebwt_f rc) (Suc m) (row_f rc))"
  shows "\<exists>rc'. advance_n (Suc m) rc = Inr rc' \<and> done_f rc' \<and>
           row_f rc' = walk (ebwt_f rc) (Suc m) (row_f rc) \<and>
           jumps_f rc' = jumps_f rc + of_nat (Suc m) \<and>
           off_f rc' = (if row_f rc' = zOff_f rc then 0 else sample rc (row_f rc')) +
                       (jumps_f rc + of_nat (Suc m)) \<and>
           (\<forall>k\<le>m. awaiting_step (advance_n k rc))"
  using assms
proof (induction m arbitrary: rc)
  case 0
  let ?r = "row_f rc" and ?e = "ebwt_f rc"
  from 0 have un: "\<not> anchor rc ?r" and an: "anchor rc (LF ?e ?r)"
    and sm: "LF ?e ?r \<noteq> zOff_f rc \<longrightarrow> has_sample rc (LF ?e ?r)"
    by auto
  from un an have ne: "LF ?e ?r \<noteq> ?r" by auto
  from advance_to_anchor [OF "0.prems"(1) ne an sm] "0.prems"(1)
  show ?case by (auto simp: awaiting_step_def done_p_def awaiting_def)
next
  case (Suc m)
  let ?r = "row_f rc" and ?e = "ebwt_f rc"
  from Suc.prems(2) have un: "\<not> anchor rc ?r" by (metis le0 walk.simps(1))
  from Suc.prems(2) have un1: "\<not> anchor rc (LF ?e ?r)"
    by (metis Suc_le_mono le0 walk.simps(1) walk.simps(2))
  have ne: "LF ?e ?r \<noteq> ?r"
  proof
    assume "LF ?e ?r = ?r"
    then have "walk ?e (Suc (Suc m)) ?r = ?r" by (rule walk_fixed)
    with Suc.prems(3) un show False by simp
  qed
  from advance_awaiting [OF Suc.prems(1) ne un1]
  obtain rc1 where rc1: "advance rc = Inr rc1" "awaiting rc1" "row_f rc1 = LF ?e ?r"
    "jumps_f rc1 = jumps_f rc + 1" "off_f rc1 = off_f rc"
    by blast
  note fr = advance_frame [OF rc1(1)] advance_frame_funs [OF rc1(1)]
  have a: "\<forall>k\<le>m. \<not> anchor rc1 (walk (ebwt_f rc1) k (row_f rc1))"
    using Suc.prems(2) by (auto simp: fr rc1(3) dest: spec [of _ "Suc _"])
  have b: "anchor rc1 (walk (ebwt_f rc1) (Suc m) (row_f rc1))"
    using Suc.prems(3) by (simp add: fr rc1(3))
  have c: "walk (ebwt_f rc1) (Suc m) (row_f rc1) \<noteq> zOff_f rc1
         \<longrightarrow> has_sample rc1 (walk (ebwt_f rc1) (Suc m) (row_f rc1))"
    using Suc.prems(4) by (simp add: fr rc1(3))
  from Suc.IH [OF rc1(2) a b c]
  obtain rc' where rc': "advance_n (Suc m) rc1 = Inr rc'" "done_f rc'"
    "row_f rc' = walk (ebwt_f rc1) (Suc m) (row_f rc1)"
    "jumps_f rc' = jumps_f rc1 + of_nat (Suc m)"
    "off_f rc' = (if row_f rc' = zOff_f rc1 then 0 else sample rc1 (row_f rc')) +
                       (jumps_f rc1 + of_nat (Suc m))"
    "\<forall>k\<le>m. awaiting_step (advance_n k rc1)"
    by blast
  have "\<forall>k\<le>Suc m. awaiting_step (advance_n k rc)"
  proof (intro allI impI)
    fix k assume "k \<le> Suc m"
    show "awaiting_step (advance_n k rc)"
    proof (cases k)
      case 0
      then show ?thesis using Suc.prems(1) by (simp add: awaiting_step_def awaiting_def done_p_def)
    next
      case (Suc j)
      with \<open>k \<le> Suc m\<close> rc'(6) rc1(1) show ?thesis by simp
    qed
  qed
  moreover have "advance_n (Suc (Suc m)) rc = Inr rc'"
    using rc1(1) rc'(1) by simp
  ultimately show ?case
    using rc' rc1 by (simp add: fr add.assoc add.commute)
qed

lemma chase_loop_unroll:
  assumes "\<forall>k<n. awaiting_step (advance_n k rc)"
  shows "chase_loop rc =
           (case advance_n n rc of Inl err \<Rightarrow> Some (Inl err) | Inr rc' \<Rightarrow> chase_loop rc')"
  using assms
proof (induction n arbitrary: rc)
  case 0
  then show ?case by simp
next
  case (Suc n)
  from Suc.prems have nd: "\<not> done_p rc"
    by (auto simp: awaiting_step_def dest: spec [of _ 0])
  show ?case
  proof (cases "advance rc")
    case (Inl err)
    with nd show ?thesis by (simp add: chase_loop.simps [of rc])
  next
    case (Inr rc1)
    have "\<forall>k<n. awaiting_step (advance_n k rc1)"
      using Suc.prems Inr by (auto dest: spec [of _ "Suc _"])
    from Suc.IH [OF this] Inr nd show ?thesis
      by (simp add: chase_loop.simps [of rc])
  qed
qed

lemma setRow_unanchored:
  assumes "row \<noteq> 0xffffffff" and "0 < qlen" and "\<not> anchor rc row"
  shows "\<exists>rc0. setRow row qlen rc = Inr rc0 \<and> awaiting rc0 \<and> row_f rc0 = row \<and>
           jumps_f rc0 = 0 \<and> off_f rc0 = 0xffffffff \<and> qlen_f rc0 = qlen \<and>
           events rc0 = events rc @ [Prefetch (initFromRow (ebwt_f rc) row)]"
  using assms by (auto simp: setRow_def prep_def anchor_def awaiting_def)

text \<open>Evaluating the recursive functions at a numeral.\<close>

lemma walk_numeral [simp]: "walk e (numeral k) r = walk e (pred_numeral k) (LF e r)"
  by (simp add: numeral_eq_Suc)

lemma advance_n_numeral [simp]:
  "advance_n (numeral k) rc =
     (case advance rc of Inl err \<Rightarrow> Inl err | Inr rc' \<Rightarrow> advance_n (pred_numeral k) rc')"
  by (simp add: numeral_eq_Suc)

lemma chase_events_numeral [simp]:
  "chase_events e r (numeral k) =
     Prefetch (initFromRow e r) # MapLF (initFromRow e r) # chase_events e (LF e r) (pred_numeral k)"
  by (simp add: numeral_eq_Suc)

lemma LF_AAAACAC:
  "LF idx_AAAACAC 7 = 5" "LF idx_AAAACAC 5 = 3" "LF idx_AAAACAC 3 = 2"
  by (simp_all add: idx_AAAACAC_def LF_def)

lemma All_less_numeral: "(\<forall>k<numeral n. P k) = (P (pred_numeral n) \<and> (\<forall>k<pred_numeral n. P k))"
  by (simp add: numeral_eq_Suc less_Suc_eq) blast

text \<open>
  Claim C3, as amended.  The claim bounds the number of steps of a chase by the
  sampling interval \<open>2 ^ offRate_\<close>.  The code marks a row by its own number (the test
  \<^verbatim>\<open>(row_ & offMask_) == row_\<close>), not by its offset in the text, and counts nothing
  against the interval; the chase takes as many steps as the walk needs to meet a row
  that is marked or is \<^verbatim>\<open>zOff_\<close>.

  What holds: let the row be neither marked nor \<^verbatim>\<open>zOff_\<close>, and let the walk from it
  meet such a row first after \<open>n\<close> backward steps (with its sample inside \<^verbatim>\<open>offs_\<close>, if it
  is not \<^verbatim>\<open>zOff_\<close>).  Then \<open>n\<close> is at least 1, the chase is unresolved after each of the
  first \<open>n - 1\<close> calls of \<^verbatim>\<open>advance\<close> and resolved by call \<open>n\<close>, the loop of the wrappers
  ends there, and the flat offset is the known offset of the row met (0 for \<^verbatim>\<open>zOff_\<close>,
  its sample otherwise) plus \<open>n\<close>, modulo \<open>2 ^ 32\<close>.
\<close>

theorem chase_resolves_at_first_anchor:
  assumes "row \<noteq> 0xffffffff" and "0 < qlen"
    and "\<not> anchor rc row"
    and "\<forall>k<n. \<not> anchor rc (walk (ebwt_f rc) k row)"
    and "anchor rc (walk (ebwt_f rc) n row)"
    and "walk (ebwt_f rc) n row \<noteq> zOff_f rc \<longrightarrow> has_sample rc (walk (ebwt_f rc) n row)"
  shows "case setRow row qlen rc of
           Inl err \<Rightarrow> False
         | Inr rc0 \<Rightarrow>
             1 \<le> n \<and>
             (\<forall>k<n. awaiting_step (advance_n k rc0)) \<and>
             (case advance_n n rc0 of
                Inl err \<Rightarrow> False
              | Inr rc' \<Rightarrow>
                  done_p rc' \<and> row_f rc' = walk (ebwt_f rc) n row \<and>
                  jumps_f rc' = of_nat n \<and>
                  flatOff rc' =
                    (if row_f rc' = zOff_f rc then 0 else sample rc (row_f rc')) + of_nat n) \<and>
             chase_loop rc0 = Some (advance_n n rc0)"
proof -
  from assms(3,5) have "n \<noteq> 0" by (cases n) auto
  then obtain m where n: "n = Suc m" by (cases n) auto
  from setRow_unanchored [OF assms(1-3)]
  obtain rc0 where rc0: "setRow row qlen rc = Inr rc0" "awaiting rc0" "row_f rc0 = row"
    "jumps_f rc0 = 0" by blast
  note fr = setRow_frame [OF rc0(1)] setRow_frame_funs [OF rc0(1)]
  have a: "\<forall>k\<le>m. \<not> anchor rc0 (walk (ebwt_f rc0) k (row_f rc0))"
    using assms(4) by (simp add: fr rc0(3) n less_Suc_eq_le)
  have b: "anchor rc0 (walk (ebwt_f rc0) (Suc m) (row_f rc0))"
    using assms(5) by (simp add: fr rc0(3) n)
  have c: "walk (ebwt_f rc0) (Suc m) (row_f rc0) \<noteq> zOff_f rc0
         \<longrightarrow> has_sample rc0 (walk (ebwt_f rc0) (Suc m) (row_f rc0))"
    using assms(6) by (simp add: fr rc0(3) n)
  from chase_reaches_anchor [OF rc0(2) a b c]
  obtain rc' where rc': "advance_n (Suc m) rc0 = Inr rc'" "done_f rc'"
    "row_f rc' = walk (ebwt_f rc0) (Suc m) (row_f rc0)"
    "jumps_f rc' = jumps_f rc0 + of_nat (Suc m)"
    "off_f rc' = (if row_f rc' = zOff_f rc0 then 0 else sample rc0 (row_f rc')) +
                       (jumps_f rc0 + of_nat (Suc m))"
    "\<forall>k\<le>m. awaiting_step (advance_n k rc0)"
    by blast
  have w: "\<forall>k<n. awaiting_step (advance_n k rc0)"
    using rc'(6) by (simp add: n less_Suc_eq_le)
  have "chase_loop rc0 = Some (advance_n n rc0)"
    using chase_loop_unroll [OF w] rc'(1,2)
    by (simp add: n chase_loop.simps [of rc'] done_p_def del: advance_n.simps)
  with w rc' rc0 show ?thesis
    by (simp add: n fr done_p_def flatOff_def del: advance_n.simps)
qed

text \<open>
  On the index of \<^verbatim>\<open>AAAACAC\<close> the walk from row 7 goes through rows 5 and 3 to row 2,
  whose sample is 1: three steps, offset 4.
\<close>

theorem chase_resolves_at_first_anchor_witness:
  "case setRow 7 3 (RowChaser idx_AAAACAC) of
     Inl err \<Rightarrow> False
   | Inr rc0 \<Rightarrow>
       awaiting_step (advance_n 0 rc0) \<and> awaiting_step (advance_n 1 rc0) \<and>
       awaiting_step (advance_n 2 rc0) \<and>
       (case advance_n 3 rc0 of
          Inl err \<Rightarrow> False
        | Inr rc' \<Rightarrow> done_p rc' \<and> row_f rc' = 2 \<and> jumps_f rc' = 3 \<and> flatOff rc' = 4) \<and>
       chase_loop rc0 = Some (advance_n 3 rc0)"
proof -
  let ?rc = "RowChaser idx_AAAACAC"
  have e: "ebwt_f ?rc = idx_AAAACAC" "zOff_f ?rc = 1" "sample ?rc 2 = 1"
    by (simp_all add: idx_defs)
  have an: "\<not> anchor ?rc 7" "\<not> anchor ?rc 5" "\<not> anchor ?rc 3" "anchor ?rc 2" "has_sample ?rc 2"
    by (simp_all add: idx_defs)
  have h1: "(7::u32) \<noteq> 0xffffffff" and h2: "(0::u32) < 3" by simp_all
  have h4: "\<forall>k<3. \<not> anchor ?rc (walk (ebwt_f ?rc) k 7)"
    by (simp add: e LF_AAAACAC an All_less_numeral)
  have h5: "anchor ?rc (walk (ebwt_f ?rc) 3 7)"
    by (simp add: e LF_AAAACAC an)
  have h6: "walk (ebwt_f ?rc) 3 7 \<noteq> zOff_f ?rc \<longrightarrow> has_sample ?rc (walk (ebwt_f ?rc) 3 7)"
    by (simp add: e LF_AAAACAC an)
  show ?thesis
    using chase_resolves_at_first_anchor [OF h1 h2 an(1) h4 h5 h6]
    by (auto simp: e LF_AAAACAC All_less_numeral split: sum.splits
        simp del: advance_n.simps advance_n_numeral)
qed

text \<open>
  The same chase refutes the bound of claim C3: the index has a sample for every
  second row, row 7 is neither marked nor the row of offset 0, the walk from each of
  the eight rows reaches a row that is marked or the row of offset 0, and the chase of
  row 7 is still unresolved after two calls of \<^verbatim>\<open>advance\<close>; the third one resolves it.
\<close>

theorem interval_bound_counterexample:
  "\<not> anchor (RowChaser idx_AAAACAC) 7 \<and>
   anchor (RowChaser idx_AAAACAC) 0 \<and>
   anchor (RowChaser idx_AAAACAC) 1 \<and>
   anchor (RowChaser idx_AAAACAC) 2 \<and>
   anchor (RowChaser idx_AAAACAC) (walk idx_AAAACAC 1 3) \<and>
   anchor (RowChaser idx_AAAACAC) 4 \<and>
   anchor (RowChaser idx_AAAACAC) (walk idx_AAAACAC 2 5) \<and>
   anchor (RowChaser idx_AAAACAC) 6 \<and>
   anchor (RowChaser idx_AAAACAC) (walk idx_AAAACAC 3 7) \<and>
   awaiting_step (chase_n 0 idx_AAAACAC 3 7) \<and>
   awaiting_step (chase_n 1 idx_AAAACAC 3 7) \<and>
   awaiting_step (chase_n 2 idx_AAAACAC 3 7) \<and>
   resolved (chase_n 3 idx_AAAACAC 3 7) \<and>
   (2::nat) ^ unat (offRate idx_AAAACAC) = 2"
  by (simp add: LF_AAAACAC) (simp add: idx_defs chaser_defs)

section \<open>The example of the specification\<close>

text \<open>
  Claim C4.  Take any index with \<^verbatim>\<open>offRate = 2\<close> (a sample for every fourth row) whose row
  of offset 0 is row 0, whose backward step sends row 7 to row 5 and row 5 to row 2,
  where rows 7 and 5 are not marked, row 2 is marked, and \<^verbatim>\<open>offs[0] = 10\<close>.  Resolving
  row 7 yields the flat offset 12, after two steps.  (The description fixes the tests
  of the three rows, not the mask: under the mask \<^verbatim>\<open>0xfffffffc\<close> row 2 would not be
  marked.)
\<close>

theorem example_chase_yields_12:
  assumes "offRate ebwt = 2" and "zOff ebwt = 0" and "0 < qlen"
    and "LF ebwt 7 = 5" and "LF ebwt 5 = 2"
    and "7 AND offMask ebwt \<noteq> 7" and "5 AND offMask ebwt \<noteq> 5" and "2 AND offMask ebwt = 2"
    and "offs ebwt \<noteq> []" and "offs ebwt ! 0 = 10"
  shows "toFlatRefOff ebwt qlen 7 = Some (Inr 12) \<and>
         awaiting_step (chase_n 0 ebwt qlen 7) \<and> awaiting_step (chase_n 1 ebwt qlen 7) \<and>
         resolved (chase_n 2 ebwt qlen 7)"
proof -
  let ?rc = "RowChaser ebwt"
  have e: "ebwt_f ?rc = ebwt" "zOff_f ?rc = 0"
    by (simp_all add: RowChaser_def assms)
  have an: "\<not> anchor ?rc 7" "\<not> anchor ?rc 5" "anchor ?rc 2" "has_sample ?rc 2" "sample ?rc 2 = 10"
    using assms by (simp_all add: RowChaser_def anchor_def marked_def has_sample_def sample_def)
  have h1: "(7::u32) \<noteq> 0xffffffff" by simp
  have h4: "\<forall>k<2. \<not> anchor ?rc (walk (ebwt_f ?rc) k 7)"
    by (simp add: e assms an All_less_numeral)
  have h5: "anchor ?rc (walk (ebwt_f ?rc) 2 7)"
    by (simp add: e assms an)
  have h6: "walk (ebwt_f ?rc) 2 7 \<noteq> zOff_f ?rc \<longrightarrow> has_sample ?rc (walk (ebwt_f ?rc) 2 7)"
    by (simp add: e assms an)
  from setRow_unanchored [OF h1 assms(3) an(1)]
  obtain rc0 where rc0: "setRow 7 qlen ?rc = Inr rc0" "awaiting rc0" "row_f rc0 = 7"
    "jumps_f rc0 = 0" by blast
  note fr = setRow_frame [OF rc0(1)] setRow_frame_funs [OF rc0(1)]
  have a: "\<forall>k\<le>1. \<not> anchor rc0 (walk (ebwt_f rc0) k (row_f rc0))"
    using h4 by (simp add: fr rc0(3) All_less_numeral le_Suc_eq)
  have b: "anchor rc0 (walk (ebwt_f rc0) (Suc 1) (row_f rc0))"
    using h5 by (simp add: fr rc0(3))
  have c: "walk (ebwt_f rc0) (Suc 1) (row_f rc0) \<noteq> zOff_f rc0
         \<longrightarrow> has_sample rc0 (walk (ebwt_f rc0) (Suc 1) (row_f rc0))"
    using h6 by (simp add: fr rc0(3))
  from chase_reaches_anchor [OF rc0(2) a b c]
  obtain rc' where rc': "advance_n (Suc 1) rc0 = Inr rc'" "done_f rc'"
    "row_f rc' = walk (ebwt_f rc0) (Suc 1) (row_f rc0)"
    "off_f rc' = (if row_f rc' = zOff_f rc0 then 0 else sample rc0 (row_f rc')) +
                       (jumps_f rc0 + of_nat (Suc 1))"
    "\<forall>k\<le>1. awaiting_step (advance_n k rc0)"
    by blast
  have w: "\<forall>k<2. awaiting_step (advance_n k rc0)"
    using rc'(5) by (simp add: All_less_numeral le_Suc_eq)
  have r2: "row_f rc' = 2" using rc'(3) by (simp add: fr rc0(3) e assms)
  have o: "off_f rc' = 12" using rc'(4) by (simp add: r2 fr e an rc0(4))
  have l: "chase_loop rc0 = Some (Inr rc')"
    using chase_loop_unroll [OF w] rc'(1,2)
    by (simp add: chase_loop.simps [of rc'] done_p_def numeral_2_eq_2
        del: advance_n.simps advance_n_numeral)
  have n2: "advance_n 2 rc0 = Inr rc'"
    using rc'(1) by (simp add: numeral_2_eq_2 del: advance_n.simps advance_n_numeral)
  show ?thesis
    using rc0(1) l o w n2 rc'(2)
    by (simp add: toFlatRefOff_def flatOff_def chase_n_def resolved_def done_p_def
        All_less_numeral del: advance_n.simps advance_n_numeral)
qed

text \<open>The index \<open>idx_example\<close> is such an index.\<close>

theorem example_chase_yields_12_witness:
  "toFlatRefOff idx_example 3 7 = Some (Inr 12) \<and>
   awaiting_step (chase_n 0 idx_example 3 7) \<and> awaiting_step (chase_n 1 idx_example 3 7) \<and>
   resolved (chase_n 2 idx_example 3 7)"
proof -
  have h: "offRate idx_example = 2" "zOff idx_example = 0" "(0::u32) < 3"
    "LF idx_example 7 = 5" "LF idx_example 5 = 2"
    "7 AND offMask idx_example \<noteq> 7" "5 AND offMask idx_example \<noteq> 5"
    "2 AND offMask idx_example = 2"
    "offs idx_example \<noteq> []" "offs idx_example ! 0 = 10"
    by (simp_all add: idx_example_def LF_def)
  show ?thesis
    by (rule example_chase_yields_12 [OF h])
qed

section \<open>The prefetch protocol of a chase\<close>

lemma protocol_ok_chase_events:
  "protocol_ok None (chase_events e r n @ es) = protocol_ok None es"
  by (induction n arbitrary: r) auto

lemma protocol_ok_trace_of: "protocol_ok None (trace_of e r n d)"
  by (simp add: trace_of_def protocol_ok_chase_events)

lemma chase_events_snoc:
  "chase_events e r (Suc n) =
     chase_events e r n @ [Prefetch (initFromRow e (walk e n r)), MapLF (initFromRow e (walk e n r))]"
  by (induction n arbitrary: r) auto

lemma advance_events:
  assumes "awaiting rc" and "advance rc = Inr rc'"
  shows "row_f rc' = LF (ebwt_f rc) (row_f rc)"
    and "events rc' = events rc @ MapLF (initFromRow (ebwt_f rc) (row_f rc)) #
           (if done_f rc' then [] else [Prefetch (initFromRow (ebwt_f rc) (row_f rc'))])"
    and "\<not> done_f rc' \<longrightarrow> awaiting rc'"
    and "sideloc_f rc' = (if done_f rc' then None else Some (initFromRow (ebwt_f rc) (row_f rc')))"
  using assms
  by (auto simp: chaser_defs awaiting_def Let_def split: if_splits sum.splits)

lemma chase_trace:
  assumes "awaiting rc0" and "events rc0 = es @ [Prefetch (initFromRow (ebwt_f rc0) (row_f rc0))]"
    and "advance_n n rc0 = Inr rc'"
  shows "events rc' = es @ trace_of (ebwt_f rc0) (row_f rc0) n (done_f rc') \<and>
         row_f rc' = walk (ebwt_f rc0) n (row_f rc0) \<and>
         sideloc_f rc' =
           (if done_f rc' then None else Some (initFromRow (ebwt_f rc0) (row_f rc')))"
  using assms
proof (induction n arbitrary: rc0 es)
  case 0
  then show ?case by (simp add: trace_of_def awaiting_def)
next
  case (Suc n)
  from Suc.prems(3) obtain rc1 where rc1: "advance rc0 = Inr rc1" "advance_n n rc1 = Inr rc'"
    by (auto split: sum.splits)
  note ev = advance_events [OF Suc.prems(1) rc1(1)]
  note fr = advance_frame [OF rc1(1)]
  show ?case
  proof (cases "done_f rc1")
    case True
    from advance_n_done [OF True rc1(2)] have "n = 0" "rc' = rc1" by simp_all
    with True ev Suc.prems(2) show ?thesis
      by (simp add: trace_of_def)
  next
    case False
    with ev have aw: "awaiting rc1" by simp
    have e1: "events rc1 = (es @ [Prefetch (initFromRow (ebwt_f rc0) (row_f rc0)),
                 MapLF (initFromRow (ebwt_f rc0) (row_f rc0))])
               @ [Prefetch (initFromRow (ebwt_f rc1) (row_f rc1))]"
      using ev(2) False Suc.prems(2) by (simp add: fr)
    from Suc.IH [OF aw e1 rc1(2)] show ?thesis
      by (simp add: fr ev(1) trace_of_def)
  qed
qed

text \<open>
  Claim C5.  Take a chase at any point: \<^verbatim>\<open>setRow\<close>, then any number \<open>n\<close> of calls of
  \<^verbatim>\<open>advance\<close> that the assertions let through.  The events of the chase are, for each
  step in turn, the prefetch for the locus of the row the chaser is at and then the
  backward step from that same locus, followed, when the chase is not done, by the one
  prefetch for the row it has reached.  So no prefetch is issued while another is
  outstanding, and every backward step consumes the prefetch issued just before it,
  for the locus of the current row.  The locus the chaser holds is valid exactly when
  the chase is not done, and then it is the one of the current row.
\<close>

theorem chase_alternates:
  assumes "setRow row qlen rc = Inr rc0" and "advance_n n rc0 = Inr rc'"
  shows "events rc' = events rc @ trace_of (ebwt_f rc) row n (done_p rc') \<and>
         protocol_ok None (trace_of (ebwt_f rc) row n (done_p rc')) \<and>
         row_f rc' = walk (ebwt_f rc) n row \<and>
         sideloc_f rc' =
           (if done_p rc' then None else Some (initFromRow (ebwt_f rc) (row_f rc')))"
proof (cases "done_f rc0")
  case True
  from advance_n_done [OF True assms(2)] have n: "n = 0" "rc' = rc0" by simp_all
  from assms(1) True have "events rc0 = events rc" "row_f rc0 = row" "sideloc_f rc0 = None"
    by (auto simp: setRow_def prep_def split: if_splits sum.splits)
  with n True show ?thesis
    by (simp add: trace_of_def done_p_def)
next
  case False
  with assms(1) have aw: "awaiting rc0" and r: "row_f rc0 = row"
    and ev: "events rc0 = events rc @ [Prefetch (initFromRow (ebwt_f rc0) (row_f rc0))]"
    by (auto simp: setRow_def prep_def awaiting_def split: if_splits sum.splits)
  note fr = setRow_frame [OF assms(1)]
  from chase_trace [OF aw ev assms(2)] show ?thesis
    by (simp add: fr r done_p_def protocol_ok_trace_of)
qed

text \<open>On the index of \<^verbatim>\<open>AAAACAC\<close>, the chase of row 7 after two steps.\<close>

theorem chase_alternates_witness:
  "events ((RowChaser idx_AAAACAC)
     \<lparr> prepped_f := True, qlen_f := 3, row_f := 3, jumps_f := 2, sideloc_f := Some 3,
       events := [Prefetch 7, MapLF 7, Prefetch 5, MapLF 5, Prefetch 3] \<rparr>) =
     events (RowChaser idx_AAAACAC) @ [Prefetch 7, MapLF 7, Prefetch 5, MapLF 5, Prefetch 3] \<and>
   protocol_ok None [Prefetch (7::u32), MapLF 7, Prefetch 5, MapLF 5, Prefetch 3]"
proof -
  let ?rc = "RowChaser idx_AAAACAC"
  let ?start = "?rc \<lparr> prepped_f := True, qlen_f := 3, row_f := 7, sideloc_f := Some 7,
       events := [Prefetch 7] \<rparr>"
  let ?mid = "?rc \<lparr> prepped_f := True, qlen_f := 3, row_f := 3, jumps_f := 2, sideloc_f := Some 3,
       events := [Prefetch 7, MapLF 7, Prefetch 5, MapLF 5, Prefetch 3] \<rparr>"
  have s: "setRow 7 3 ?rc = Inr ?start"
    by (simp add: idx_defs chaser_defs)
  have a: "advance_n 2 ?start = Inr ?mid"
    by (simp add: idx_defs chaser_defs)
  have t: "trace_of idx_AAAACAC 7 2 False = [Prefetch 7, MapLF 7, Prefetch 5, MapLF 5, Prefetch 3]"
    by (simp add: trace_of_def LF_AAAACAC) (simp add: idx_AAAACAC_def)
  have e: "ebwt_f ?rc = idx_AAAACAC" "done_p ?mid = False"
    by (simp_all add: RowChaser_def done_p_def)
  from chase_alternates [OF s a] show ?thesis
    unfolding e t by simp
qed

section \<open>The wrappers\<close>

lemma step_until_resolved_unfold:
  "step_until_resolved rc =
     (if \<not> done_p rc then
        (case advance rc of
           Inl err \<Rightarrow> Some (Inl err)
         | Inr rc' \<Rightarrow> step_until_resolved rc')
      else Some (Inr rc))"
  unfolding step_until_resolved_def
  by (subst while_option_unfold)
    (auto simp: awaiting_step_def while_option_unfold [of _ _ "Inl _"] split: sum.splits)

lemma chase_loop_Some:
  assumes "chase_loop rc = Some r"
  shows "step_until_resolved rc = Some r"
proof (rule chase_loop.raw_induct [OF _ assms])
  fix f :: "'a chaser \<Rightarrow> (error + 'a chaser) option" and c s
  assume ih: "\<And>x y. f x = Some y \<Longrightarrow> step_until_resolved x = Some y"
    and st: "(if \<not> done_p c
               then case advance c of Inl err \<Rightarrow> Some (Inl err) | Inr rc' \<Rightarrow> f rc'
               else Some (Inr c)) = Some s"
  then show "step_until_resolved c = Some s"
    by (subst step_until_resolved_unfold) (auto split: if_splits sum.splits)
qed

lemma funpow_fail:
  "((\<lambda>s. case s of Inl err \<Rightarrow> Inl err | Inr c \<Rightarrow> advance c) ^^ k) (Inl err) = Inl err"
  by (induction k) auto

lemma chase_loop_stops:
  assumes "\<not> awaiting_step (((\<lambda>s. case s of Inl err \<Rightarrow> Inl err | Inr c \<Rightarrow> advance c) ^^ k) (Inr rc))"
  shows "chase_loop rc = step_until_resolved rc"
  using assms
proof (induction k arbitrary: rc)
  case 0
  then show ?case
    by (simp add: awaiting_step_def chase_loop.simps [of rc] step_until_resolved_unfold [of rc])
next
  case (Suc k)
  show ?case
  proof (cases "advance rc")
    case (Inl err)
    then show ?thesis
      by (simp add: chase_loop.simps [of rc] step_until_resolved_unfold [of rc])
  next
    case (Inr rc1)
    from Suc.prems have "\<not> awaiting_step (((\<lambda>s. case s of Inl err \<Rightarrow> Inl err | Inr c \<Rightarrow> advance c) ^^ k) (Inr rc1))"
      by (simp add: funpow_swap1 Inr)
    from Suc.IH [OF this] Inr show ?thesis
      by (simp add: chase_loop.simps [of rc] step_until_resolved_unfold [of rc])
  qed
qed

lemma chase_loop_eq: "chase_loop rc = step_until_resolved rc"
proof (cases "step_until_resolved rc")
  case None
  then show ?thesis
    by (cases "chase_loop rc") (auto dest: chase_loop_Some)
next
  case (Some r)
  then obtain k where "\<not> awaiting_step (((\<lambda>s. case s of Inl err \<Rightarrow> Inl err | Inr c \<Rightarrow> advance c) ^^ k) (Inr rc))"
    unfolding step_until_resolved_def
    by (metis while_option_stop2)
  then show ?thesis by (rule chase_loop_stops)
qed

text \<open>
  Claim C6.  For every index, query length and row, \<^verbatim>\<open>toFlatRefOff\<close> and \<^verbatim>\<open>toRefOff\<close> give
  what the specification's wording gives: a fresh chaser, \<^verbatim>\<open>setRow\<close>, \<^verbatim>\<open>advance\<close> called
  again and again until the chaser is done, then \<^verbatim>\<open>flatOff\<close> or \<^verbatim>\<open>off\<close>.  The two sides
  agree also where a call fails (both give the same failure) and where the chase never
  ends (both are \<open>None\<close>).
\<close>

theorem wrappers_drive_to_completion:
  "toFlatRefOff ebwt qlen row = resolveRowToFlatOffset ebwt qlen row \<and>
   toRefOff ebwt qlen row = resolveRowToTextPosition ebwt qlen row"
  by (auto simp: toFlatRefOff_def toRefOff_def resolveRowToFlatOffset_def
      resolveRowToTextPosition_def chase_loop_eq split: sum.splits option.splits prod.splits)

section \<open>Calls out of sequence\<close>

lemma chaser_inv_new: "chaser_inv (RowChaser ebwt)"
  by (simp add: chaser_inv_def RowChaser_def)

lemma chaser_inv_call:
  assumes "chaser_inv rc" and "do_call c rc = Inr rc'"
  shows "chaser_inv rc'"
proof (cases c)
  case (SetRow row qlen)
  with assms show ?thesis
    by (auto simp: chaser_inv_def setRow_def prep_def split: if_splits sum.splits)
next
  case Advance
  with assms show ?thesis
    by (auto simp: chaser_inv_def advance_def prep_def Let_def
        split: if_splits sum.splits option.splits)
next
  case Prep
  with assms show ?thesis
    by (auto simp: chaser_inv_def prep_def split: if_splits)
next
  case Off
  with assms show ?thesis
    by (auto simp: chaser_inv_def off_def flatOff_def split: if_splits sum.splits prod.splits)
qed

lemma chaser_inv_run:
  assumes "chaser_inv rc" and "run cs rc = Inr rc'"
  shows "chaser_inv rc'"
  using assms
proof (induction cs arbitrary: rc)
  case Nil
  then show ?case by simp
next
  case (Cons c cs)
  then show ?case
    by (auto split: sum.splits dest: chaser_inv_call)
qed

text \<open>
  Claim C7.  \<^verbatim>\<open>advance\<close> is rejected by an assertion, and returns no chaser to read an
  offset from, in every state in which the chase is done or \<^verbatim>\<open>prepped_\<close> is not set; and
  in every state that calls of the public methods on a fresh chaser lead to, a chaser
  that does not hold the valid locus of its current row (no prefetch for that locus is
  issued and unconsumed) is in one of these two cases.  The failure is the one of
  \<^verbatim>\<open>assert(!done_)\<close> when the chase is done, else the one of \<^verbatim>\<open>assert(prepped_)\<close>.
\<close>

theorem advance_out_of_sequence_rejected:
  assumes "done_p rc \<or> \<not> prepped_f rc \<or>
           (run cs (RowChaser ebwt) = Inr rc \<and>
            sideloc_f rc \<noteq> Some (initFromRow (ebwt_f rc) (row_f rc)))"
  shows "advance rc = Inl (if done_p rc then Assert_not_done else Assert_prepped)"
proof -
  have "done_f rc \<or> \<not> prepped_f rc"
  proof (cases "run cs (RowChaser ebwt) = Inr rc \<and>
            sideloc_f rc \<noteq> Some (initFromRow (ebwt_f rc) (row_f rc))")
    case True
    then have "chaser_inv rc" using chaser_inv_run [OF chaser_inv_new] by blast
    with True show ?thesis by (auto simp: chaser_inv_def split: if_splits)
  next
    case False
    with assms show ?thesis by (auto simp: done_p_def)
  qed
  then show ?thesis by (auto simp: advance_def done_p_def)
qed

text \<open>
  On a fresh chaser \<^verbatim>\<open>advance\<close> fails for want of a prefetch; after \<^verbatim>\<open>setRow\<close> of the
  marked row 4 the chase is done and \<^verbatim>\<open>advance\<close> fails for that.
\<close>

theorem advance_out_of_sequence_rejected_witness:
  "advance (RowChaser idx_AAAACAC) = Inl Assert_prepped \<and>
   run [SetRow 4 3] (RowChaser idx_AAAACAC) =
     Inr ((RowChaser idx_AAAACAC) \<lparr> qlen_f := 3, row_f := 4, done_f := True, off_f := 5 \<rparr>) \<and>
   advance ((RowChaser idx_AAAACAC) \<lparr> qlen_f := 3, row_f := 4, done_f := True, off_f := 5 \<rparr>) =
     Inl Assert_not_done"
proof -
  let ?new = "RowChaser idx_AAAACAC"
  let ?fin = "?new \<lparr> qlen_f := 3, row_f := 4, done_f := True, off_f := 5 \<rparr>"
  have r: "run [SetRow 4 3] ?new = Inr ?fin"
    by (simp add: idx_defs chaser_defs)
  have a: "done_p ?new \<or> \<not> prepped_f ?new \<or>
           (run [] ?new = Inr ?new \<and>
            sideloc_f ?new \<noteq> Some (initFromRow (ebwt_f ?new) (row_f ?new)))"
    by (simp add: RowChaser_def)
  have b: "done_p ?fin \<or> \<not> prepped_f ?fin \<or>
           (run [SetRow 4 3] ?new = Inr ?fin \<and>
            sideloc_f ?fin \<noteq> Some (initFromRow (ebwt_f ?fin) (row_f ?fin)))"
    by (simp add: done_p_def)
  have d: "done_p ?new = False" "done_p ?fin = True"
    by (simp_all add: done_p_def RowChaser_def)
  show ?thesis
    using advance_out_of_sequence_rejected [OF a] advance_out_of_sequence_rejected [OF b] r
    by (simp add: d)
qed

section \<open>A damaged index\<close>

text \<open>
  Claim C8 says that the resolver reports a fatal error in two cases: when the backward
  step returns the row it was given, and when the number of steps exceeds a bound
  derived from the sampling interval.  The code has the first check
  (\<^verbatim>\<open>assert_neq(newrow, row_)\<close>) and no second one: \<^verbatim>\<open>jumps_\<close> is only counted and added.
  On the index \<open>idx_cycle\<close>, with a sample for every second row, the chase of row 3 is
  still going after ten steps, without any failure.
\<close>

theorem no_step_bound_counterexample:
  "awaiting_step (chase_n 10 idx_cycle 3 3) \<and>
   map_sum id jumps_f (chase_n 10 idx_cycle 3 3) = Inr 10 \<and>
   (2::nat) ^ unat (offRate idx_cycle) = 2"
  by (simp add: idx_defs chaser_defs)

text \<open>
  Claim C8, as amended.  When the backward step from the locus of the current row
  returns that same row, \<^verbatim>\<open>advance\<close> fails with the assertion \<^verbatim>\<open>assert_neq(newrow, row_)\<close>.
  The number of steps taken is never checked: whether \<^verbatim>\<open>advance\<close> fails, and with
  which failure, does not depend on the value of \<^verbatim>\<open>jumps_\<close>.
\<close>

theorem advance_integrity:
  "(awaiting rc \<and> LF (ebwt_f rc) (row_f rc) = row_f rc \<longrightarrow> advance rc = Inl Assert_newrow_neq) \<and>
   (advance (rc\<lparr> jumps_f := j \<rparr>) = Inl err) = (advance rc = Inl err)"
  by (auto simp: advance_def prep_def read_offs_def awaiting_def LF_def marked_def Let_def
      split: option.splits sum.splits)

text \<open>On \<open>idx_cycle\<close> the backward step sends row 0 to row 0.\<close>

theorem advance_integrity_witness:
  "advance ((RowChaser idx_cycle)
      \<lparr> prepped_f := True, row_f := 0, sideloc_f := Some 0 \<rparr>) = Inl Assert_newrow_neq"
proof -
  let ?st = "(RowChaser idx_cycle) \<lparr> prepped_f := True, row_f := 0, sideloc_f := Some 0 \<rparr>"
  have "awaiting ?st \<and> LF (ebwt_f ?st) (row_f ?st) = row_f ?st"
    by (simp add: awaiting_def LF_def RowChaser_def idx_cycle_def)
  with advance_integrity [of ?st] show ?thesis by blast
qed

section \<open>Translating the offset\<close>

text \<open>
  Claim C9.  Take a chase that is done with a flat offset (a value other than the
  reserved \<^verbatim>\<open>0xffffffff\<close>) for which the index's \<^verbatim>\<open>joinedToTextOff\<close> answers with the
  sequence number \<^verbatim>\<open>0xffffffff\<close>, as it does when the alignment overlaps a boundary
  between two sequences.  Then \<^verbatim>\<open>off\<close> does not fail: it returns the pair with that
  sequence number and the text offset unchanged, and stores the length in \<^verbatim>\<open>tlen_\<close>.
\<close>

theorem off_passes_no_sequence:
  assumes "done_p rc" and "flatOff rc \<noteq> 0xffffffff"
    and "joinedToTextOff (ebwt_f rc) (qlen_f rc) (flatOff rc) = (0xffffffff, textoff, len)"
  shows "off rc = Inr ((0xffffffff, textoff), rc\<lparr> tlen_f := len \<rparr>)"
  using assms by (simp add: off_def)

text \<open>
  On the index of \<^verbatim>\<open>AAAACAC\<close>, whose one sequence has length 7: a query of length 5 at
  offset 5 (row 4) runs past the end of the sequence.
\<close>

theorem off_passes_no_sequence_witness:
  "off ((RowChaser idx_AAAACAC) \<lparr> qlen_f := 5, row_f := 4, done_f := True, off_f := 5 \<rparr>) =
     Inr ((0xffffffff, 0),
       (RowChaser idx_AAAACAC)
         \<lparr> qlen_f := 5, row_f := 4, done_f := True, off_f := 5, tlen_f := 0xffffffff \<rparr>) \<and>
   toRefOff idx_AAAACAC 5 4 = Some (Inr (0xffffffff, 0))"
proof -
  let ?fin = "(RowChaser idx_AAAACAC) \<lparr> qlen_f := 5, row_f := 4, done_f := True, off_f := 5 \<rparr>"
  have a: "done_p ?fin" "flatOff ?fin \<noteq> 0xffffffff"
    "joinedToTextOff (ebwt_f ?fin) (qlen_f ?fin) (flatOff ?fin) = (0xffffffff, 0, 0xffffffff)"
    by (simp_all add: done_p_def flatOff_def RowChaser_def idx_AAAACAC_def)
  have s: "setRow 4 5 (RowChaser idx_AAAACAC) = Inr ?fin"
    by (simp add: idx_defs chaser_defs)
  have l: "chase_loop ?fin = Some (Inr ?fin)"
    using a(1) by (simp add: chase_loop.simps [of ?fin])
  from off_passes_no_sequence [OF a] show ?thesis
    by (simp add: toRefOff_def s l)
qed

section \<open>The offset of an unresolved chase\<close>

text \<open>
  Claim C10.  After any sequence of calls of \<^verbatim>\<open>setRow\<close>, \<^verbatim>\<open>advance\<close>, \<^verbatim>\<open>prep\<close> and \<^verbatim>\<open>off\<close>
  on a fresh chaser that the assertions let through, if \<^verbatim>\<open>done()\<close> is false then
  \<^verbatim>\<open>flatOff()\<close> is the reserved value \<^verbatim>\<open>0xffffffff\<close>.
\<close>

theorem unresolved_offset_unset:
  assumes "run cs (RowChaser ebwt) = Inr rc" and "\<not> done_p rc"
  shows "flatOff rc = 0xffffffff"
proof -
  have "chaser_inv rc" using chaser_inv_run [OF chaser_inv_new assms(1)] .
  with assms(2) show ?thesis by (simp add: chaser_inv_def done_p_def flatOff_def)
qed

text \<open>
  On the index of \<^verbatim>\<open>AAAACAC\<close>: a first chase resolves row 4 to offset 5 and is
  translated, a second chase of row 7 has taken one step.
\<close>

theorem unresolved_offset_unset_witness:
  "run [SetRow 4 2, Off, SetRow 7 3, Advance] (RowChaser idx_AAAACAC) =
     Inr ((RowChaser idx_AAAACAC)
       \<lparr> prepped_f := True, qlen_f := 3, row_f := 5, jumps_f := 1, sideloc_f := Some 5,
         tlen_f := 7, events := [Prefetch 7, MapLF 7, Prefetch 5] \<rparr>) \<and>
   flatOff ((RowChaser idx_AAAACAC)
       \<lparr> prepped_f := True, qlen_f := 3, row_f := 5, jumps_f := 1, sideloc_f := Some 5,
         tlen_f := 7, events := [Prefetch 7, MapLF 7, Prefetch 5] \<rparr>) = 0xffffffff"
proof -
  let ?mid = "(RowChaser idx_AAAACAC)
       \<lparr> prepped_f := True, qlen_f := 3, row_f := 5, jumps_f := 1, sideloc_f := Some 5,
         tlen_f := 7, events := [Prefetch 7, MapLF 7, Prefetch 5] \<rparr>"
  have r: "run [SetRow 4 2, Off, SetRow 7 3, Advance] (RowChaser idx_AAAACAC) = Inr ?mid"
    by (simp add: idx_defs chaser_defs off_def)
  have d: "\<not> done_p ?mid" by (simp add: done_p_def RowChaser_def)
  from unresolved_offset_unset [OF r d] r show ?thesis by simp
qed

end
